theory Spec2Isabelle
  imports Main "HOL-Library.Word"
begin

section \<open>JavaScript strings\<close>

text \<open>
  A JavaScript string is a sequence of 16-bit code units. The regular expressions of
  \<^verbatim>\<open>parseSuggestion\<close> carry no \<^verbatim>\<open>u\<close> flag, so they match code unit by code unit.
\<close>

type_synonym code_unit = "16 word"
type_synonym jsstring = "code_unit list"

text \<open>An ASCII literal of the source as a JavaScript string.\<close>

definition js :: "string \<Rightarrow> jsstring" where
  "js s = map of_char s"

text \<open>
  The class \<^verbatim>\<open>\s\<close>, which is also what \<^verbatim>\<open>String.prototype.trim\<close> removes:
  ECMAScript's WhiteSpace and LineTerminator code points.
\<close>

definition is_space :: "code_unit \<Rightarrow> bool" where
  "is_space c =
     (c = 0x09 \<or> c = 0x0A \<or> c = 0x0B \<or> c = 0x0C \<or> c = 0x0D \<or> c = 0x20 \<or>
      c = 0xA0 \<or> c = 0x1680 \<or> (0x2000 \<le> c \<and> c \<le> 0x200A) \<or>
      c = 0x2028 \<or> c = 0x2029 \<or> c = 0x202F \<or> c = 0x205F \<or> c = 0x3000 \<or> c = 0xFEFF)"

text \<open>The class \<^verbatim>\<open>\d\<close>.\<close>

definition is_digit :: "code_unit \<Rightarrow> bool" where
  "is_digit c = (0x30 \<le> c \<and> c \<le> 0x39)"

text \<open>The class \<^verbatim>\<open>[\w-]\<close>: ASCII letters, digits, underscore and the hyphen.\<close>

definition is_word_or_hyphen :: "code_unit \<Rightarrow> bool" where
  "is_word_or_hyphen c =
     ((0x41 \<le> c \<and> c \<le> 0x5A) \<or> (0x61 \<le> c \<and> c \<le> 0x7A) \<or>
      (0x30 \<le> c \<and> c \<le> 0x39) \<or> c = 0x5F \<or> c = 0x2D)"

text \<open>The class \<^verbatim>\<open>[-\<bullet>*]\<close>: hyphen, U+2022 BULLET and asterisk.\<close>

definition is_bullet :: "code_unit \<Rightarrow> bool" where
  "is_bullet c = (c = 0x2D \<or> c = 0x2022 \<or> c = 0x2A)"

text \<open>
  Canonicalisation under the \<^verbatim>\<open>i\<close> flag. Every pattern character of the source is
  ASCII. ECMAScript never canonicalises a code unit of 128 or more to one below 128, so
  against an ASCII pattern character only the ASCII letter of either case (or the very same
  symbol) matches: folding \<^verbatim>\<open>a\<close>..\<^verbatim>\<open>z\<close> to upper case and leaving every other code unit
  alone decides the same comparisons.
\<close>

definition canon :: "code_unit \<Rightarrow> code_unit" where
  "canon c = (if 0x61 \<le> c \<and> c \<le> 0x7A then c - 0x20 else c)"

text \<open>\<^verbatim>\<open>String.prototype.trim\<close>.\<close>

definition trim :: "jsstring \<Rightarrow> jsstring" where
  "trim s = rev (dropWhile is_space (rev (dropWhile is_space s)))"

text \<open>\<^verbatim>\<open>s.split('\n')\<close>; the empty string splits into one empty line.\<close>

fun split_nl :: "jsstring \<Rightarrow> jsstring list" where
  "split_nl [] = [[]]"
| "split_nl (c # cs) =
     (if c = 0x0A then [] # split_nl cs
      else (case split_nl cs of [] \<Rightarrow> [[c]] | l # ls \<Rightarrow> (c # l) # ls))"

section \<open>Backtracking regular expressions\<close>

text \<open>
  ECMAScript defines a pattern as a matcher that takes the rest of the input and a
  continuation, and backtracks by trying its alternatives in order until the continuation
  succeeds. The combinators below are those matchers for the constructs the source uses;
  \<open>None\<close> is failure.
\<close>

text \<open>A run of literal pattern characters, compared under the \<^verbatim>\<open>i\<close> flag.\<close>

primrec lit :: "jsstring \<Rightarrow> (jsstring \<Rightarrow> 'r option) \<Rightarrow> jsstring \<Rightarrow> 'r option" where
  "lit [] k s = k s"
| "lit (p # ps) k s =
     (case s of [] \<Rightarrow> None
      | c # cs \<Rightarrow> if canon c = canon p then lit ps k cs else None)"

text \<open>One code unit of a character class.\<close>

definition one :: "(code_unit \<Rightarrow> bool) \<Rightarrow> (jsstring \<Rightarrow> 'r option) \<Rightarrow> jsstring \<Rightarrow> 'r option" where
  "one P k s = (case s of [] \<Rightarrow> None | c # cs \<Rightarrow> if P c then k cs else None)"

text \<open>The greedy \<^verbatim>\<open>*\<close> on a character class: the longest run first, then shorter ones.\<close>

fun star :: "(code_unit \<Rightarrow> bool) \<Rightarrow> (jsstring \<Rightarrow> 'r option) \<Rightarrow> jsstring \<Rightarrow> 'r option" where
  "star P k [] = k []"
| "star P k (c # cs) =
     (if P c then (case star P k cs of Some r \<Rightarrow> Some r | None \<Rightarrow> k (c # cs))
      else k (c # cs))"

text \<open>The greedy \<^verbatim>\<open>+\<close> on a character class.\<close>

definition plus :: "(code_unit \<Rightarrow> bool) \<Rightarrow> (jsstring \<Rightarrow> 'r option) \<Rightarrow> jsstring \<Rightarrow> 'r option" where
  "plus P k s = one P (star P k) s"

text \<open>The greedy \<^verbatim>\<open>?\<close> on a character class.\<close>

definition opt :: "(code_unit \<Rightarrow> bool) \<Rightarrow> (jsstring \<Rightarrow> 'r option) \<Rightarrow> jsstring \<Rightarrow> 'r option" where
  "opt P k s =
     (case s of [] \<Rightarrow> k []
      | c # cs \<Rightarrow> if P c then (case k cs of Some r \<Rightarrow> Some r | None \<Rightarrow> k s) else k s)"

text \<open>
  The capturing group \<^verbatim>\<open>([\s\S]*?)\<close>: the shortest run first. The continuation receives
  the captured text, accumulated in \<open>g\<close>, and the rest of the input.
\<close>

fun lazy_group :: "(jsstring \<Rightarrow> jsstring \<Rightarrow> 'r option) \<Rightarrow> jsstring \<Rightarrow> jsstring \<Rightarrow> 'r option" where
  "lazy_group k g [] = k g []"
| "lazy_group k g (c # cs) =
     (case k g (c # cs) of Some r \<Rightarrow> Some r | None \<Rightarrow> lazy_group k (g @ [c]) cs)"

text \<open>The capturing group \<^verbatim>\<open>([\s\S]*)\<close>: the longest run first.\<close>

fun greedy_group :: "(jsstring \<Rightarrow> jsstring \<Rightarrow> 'r option) \<Rightarrow> jsstring \<Rightarrow> jsstring \<Rightarrow> 'r option" where
  "greedy_group k g [] = k g []"
| "greedy_group k g (c # cs) =
     (case greedy_group k (g @ [c]) cs of Some r \<Rightarrow> Some r | None \<Rightarrow> k g (c # cs))"

text \<open>The lookahead \<^verbatim>\<open>(?=...)\<close> on a literal: it consumes nothing.\<close>

definition lookahead :: "jsstring \<Rightarrow> (jsstring \<Rightarrow> 'r option) \<Rightarrow> jsstring \<Rightarrow> 'r option" where
  "lookahead p k s = (case lit p (\<lambda>_. Some ()) s of None \<Rightarrow> None | Some _ \<Rightarrow> k s)"

text \<open>The end of the pattern after the group: the match succeeds with group 1.\<close>

definition matched :: "jsstring \<Rightarrow> jsstring \<Rightarrow> jsstring option" where
  "matched g s = Some g"

text \<open>
  \<^verbatim>\<open>String.prototype.match\<close> with a regular expression without the \<^verbatim>\<open>g\<close> flag: the
  pattern is tried at index 0, 1, ... up to the length of the string, and the first index
  where it matches wins. \<open>None\<close> is JavaScript's \<^verbatim>\<open>null\<close>; of a match the source reads
  only group 1.
\<close>

fun js_match :: "(jsstring \<Rightarrow> 'r option) \<Rightarrow> jsstring \<Rightarrow> 'r option" where
  "js_match rx [] = rx []"
| "js_match rx (c # cs) = (case rx (c # cs) of Some r \<Rightarrow> Some r | None \<Rightarrow> js_match rx cs)"

section \<open>The patterns of the source\<close>

text \<open>\<^verbatim>\<open>/### Concise Technical Explanation([\s\S]*?)(?=###)/i\<close>\<close>

definition rx_explanation_heading :: "jsstring \<Rightarrow> jsstring option" where
  "rx_explanation_heading =
     lit (js ''### Concise Technical Explanation'')
       (lazy_group (\<lambda>g. lookahead (js ''###'') (matched g)) [])"

text \<open>\<^verbatim>\<open>/1\. Explanation of this [\w-]+ violation([\s\S]*?)(?=2\.)/i\<close>\<close>

definition rx_explanation_numbered :: "jsstring \<Rightarrow> jsstring option" where
  "rx_explanation_numbered =
     lit (js ''1. Explanation of this '')
       (plus is_word_or_hyphen
         (lit (js '' violation'')
           (lazy_group (\<lambda>g. lookahead (js ''2.'') (matched g)) [])))"

text \<open>\<^verbatim>\<open>/### Fixed HTML Snippet([\s\S]*?)(?=###)/i\<close>\<close>

definition rx_fixedHTML_heading :: "jsstring \<Rightarrow> jsstring option" where
  "rx_fixedHTML_heading =
     lit (js ''### Fixed HTML Snippet'')
       (lazy_group (\<lambda>g. lookahead (js ''###'') (matched g)) [])"

text \<open>\<^verbatim>\<open>/2\. Fixed HTML code([\s\S]*?)(?=3\.)/i\<close>\<close>

definition rx_fixedHTML_numbered :: "jsstring \<Rightarrow> jsstring option" where
  "rx_fixedHTML_numbered =
     lit (js ''2. Fixed HTML code'')
       (lazy_group (\<lambda>g. lookahead (js ''3.'') (matched g)) [])"

text \<open>\<^verbatim>\<open>/### Implementation Steps([\s\S]*?)(?=###)/i\<close>\<close>

definition rx_steps_heading :: "jsstring \<Rightarrow> jsstring option" where
  "rx_steps_heading =
     lit (js ''### Implementation Steps'')
       (lazy_group (\<lambda>g. lookahead (js ''###'') (matched g)) [])"

text \<open>\<^verbatim>\<open>/3\. Implementation steps([\s\S]*?)(?=WCAG reference)/i\<close>\<close>

definition rx_steps_numbered :: "jsstring \<Rightarrow> jsstring option" where
  "rx_steps_numbered =
     lit (js ''3. Implementation steps'')
       (lazy_group (\<lambda>g. lookahead (js ''WCAG reference'') (matched g)) [])"

text \<open>\<^verbatim>\<open>/### WCAG Reference([\s\S]*)/i\<close>\<close>

definition rx_wcag_heading :: "jsstring \<Rightarrow> jsstring option" where
  "rx_wcag_heading = lit (js ''### WCAG Reference'') (greedy_group matched [])"

text \<open>\<^verbatim>\<open>/WCAG reference:?([\s\S]*)/i\<close>\<close>

definition rx_wcag_label :: "jsstring \<Rightarrow> jsstring option" where
  "rx_wcag_label =
     lit (js ''WCAG reference'') (opt (\<lambda>c. c = 0x3A) (greedy_group matched []))"

text \<open>
  \<^verbatim>\<open>step.match(/implementation steps/i)\<close>, read for its truth value only.
\<close>

definition mentions_implementation_steps :: "jsstring \<Rightarrow> bool" where
  "mentions_implementation_steps step =
     (js_match (lit (js ''implementation steps'') (\<lambda>_. Some ())) step \<noteq> None)"

text \<open>
  \<^verbatim>\<open>step.replace(/^[-\<bullet>*]\s*/, '')\<close>. Without the \<^verbatim>\<open>m\<close> flag \<^verbatim>\<open>^\<close> holds at index 0
  only, so the pattern is tried there alone; what is left after the match is the result, and
  a string that does not match is returned unchanged.
\<close>

definition strip_bullet :: "jsstring \<Rightarrow> jsstring" where
  "strip_bullet step =
     (case one is_bullet (star is_space Some) step of Some rest \<Rightarrow> rest | None \<Rightarrow> step)"

text \<open>\<^verbatim>\<open>step.replace(/^\d+\.\s*/, '')\<close>.\<close>

definition strip_ordinal :: "jsstring \<Rightarrow> jsstring" where
  "strip_ordinal step =
     (case plus is_digit (one (\<lambda>c. c = 0x2E) (star is_space Some)) step of
        Some rest \<Rightarrow> rest | None \<Rightarrow> step)"

section \<open>parseSuggestion of ResultsView.js\<close>

text \<open>The object \<^verbatim>\<open>sections\<close>, which is also the shape of the fallback object.\<close>

record sections =
  explanation :: jsstring
  fixedHTML :: jsstring
  steps :: "jsstring list"
  wcag :: jsstring

text \<open>
  The four matches. In \<^verbatim>\<open>a || b\<close> on two match results the second pattern is tried
  only when the first gave \<^verbatim>\<open>null\<close>.
\<close>

definition explanationMatch :: "jsstring \<Rightarrow> jsstring option" where
  "explanationMatch suggestion =
     (case js_match rx_explanation_heading suggestion of
        Some m \<Rightarrow> Some m
      | None \<Rightarrow> js_match rx_explanation_numbered suggestion)"

definition fixedHTMLMatch :: "jsstring \<Rightarrow> jsstring option" where
  "fixedHTMLMatch suggestion =
     (case js_match rx_fixedHTML_heading suggestion of
        Some m \<Rightarrow> Some m
      | None \<Rightarrow> js_match rx_fixedHTML_numbered suggestion)"

definition stepsMatch :: "jsstring \<Rightarrow> jsstring option" where
  "stepsMatch suggestion =
     (case js_match rx_steps_heading suggestion of
        Some m \<Rightarrow> Some m
      | None \<Rightarrow> js_match rx_steps_numbered suggestion)"

definition wcagMatch :: "jsstring \<Rightarrow> jsstring option" where
  "wcagMatch suggestion =
     (case js_match rx_wcag_heading suggestion of
        Some m \<Rightarrow> Some m
      | None \<Rightarrow> js_match rx_wcag_label suggestion)"

text \<open>The callback of \<^verbatim>\<open>.map\<close> on the lines of the steps block.\<close>

definition clean_step :: "jsstring \<Rightarrow> jsstring" where
  "clean_step step = trim (strip_ordinal (strip_bullet step))"

text \<open>The callback of \<^verbatim>\<open>.filter\<close>.\<close>

definition keep_step :: "jsstring \<Rightarrow> bool" where
  "keep_step step = (0 < length step \<and> \<not> mentions_implementation_steps step)"

text \<open>The body of \<^verbatim>\<open>if (stepsMatch) { ... }\<close>, from group 1 of the match.\<close>

definition steps_of :: "jsstring \<Rightarrow> jsstring list" where
  "steps_of group1 =
     (let stepsText = trim group1
      in filter keep_step (map clean_step (split_nl stepsText)))"

text \<open>The record \<^verbatim>\<open>sections\<close> as it stands before the fallback test.\<close>

definition parsed_sections :: "jsstring \<Rightarrow> sections" where
  "parsed_sections suggestion =
     \<lparr> explanation = (case explanationMatch suggestion of Some g \<Rightarrow> trim g | None \<Rightarrow> []),
       fixedHTML = (case fixedHTMLMatch suggestion of Some g \<Rightarrow> trim g | None \<Rightarrow> []),
       steps = (case stepsMatch suggestion of Some g \<Rightarrow> steps_of g | None \<Rightarrow> []),
       wcag = (case wcagMatch suggestion of Some g \<Rightarrow> trim g | None \<Rightarrow> []) \<rparr>"

text \<open>The record of the fallback branch.\<close>

definition raw_fallback :: "jsstring \<Rightarrow> sections" where
  "raw_fallback suggestion =
     \<lparr> explanation = suggestion, fixedHTML = [], steps = [], wcag = [] \<rparr>"

text \<open>
  The argument is \<open>None\<close> for \<^verbatim>\<open>null\<close> and \<^verbatim>\<open>undefined\<close>, the result \<open>None\<close> for
  \<^verbatim>\<open>null\<close>. \<^verbatim>\<open>!suggestion\<close> also holds of the empty string, and \<^verbatim>\<open>!sections.explanation\<close>
  holds exactly of the empty string.
\<close>

definition parseSuggestion :: "jsstring option \<Rightarrow> sections option" where
  "parseSuggestion suggestion =
     (case suggestion of
        None \<Rightarrow> None
      | Some s \<Rightarrow>
          if s = [] then None
          else
            let sections = parsed_sections s
            in if explanation sections = [] \<and> fixedHTML sections = []
               then Some (raw_fallback s)
               else Some sections)"

section \<open>parseSuggestion of the exported module\<close>

text \<open>
  The second implementation, an exported function of a module of its own. It knows the
  heading convention only, strips no bullet, filters empty steps only, and has no guard:
  \<^verbatim>\<open>suggestion.match\<close> on \<^verbatim>\<open>null\<close> or \<^verbatim>\<open>undefined\<close> throws a TypeError.
\<close>

datatype js_error = TypeError

definition clean_step_exported :: "jsstring \<Rightarrow> jsstring" where
  "clean_step_exported step = trim (strip_ordinal step)"

definition keep_step_exported :: "jsstring \<Rightarrow> bool" where
  "keep_step_exported step = (0 < length step)"

definition steps_of_exported :: "jsstring \<Rightarrow> jsstring list" where
  "steps_of_exported group1 =
     (let stepsText = trim group1
      in filter keep_step_exported (map clean_step_exported (split_nl stepsText)))"

definition parsed_sections_exported :: "jsstring \<Rightarrow> sections" where
  "parsed_sections_exported suggestion =
     \<lparr> explanation =
         (case js_match rx_explanation_heading suggestion of Some g \<Rightarrow> trim g | None \<Rightarrow> []),
       fixedHTML =
         (case js_match rx_fixedHTML_heading suggestion of Some g \<Rightarrow> trim g | None \<Rightarrow> []),
       steps =
         (case js_match rx_steps_heading suggestion of
            Some g \<Rightarrow> steps_of_exported g | None \<Rightarrow> []),
       wcag =
         (case js_match rx_wcag_heading suggestion of Some g \<Rightarrow> trim g | None \<Rightarrow> []) \<rparr>"

definition parseSuggestion_exported :: "jsstring option \<Rightarrow> js_error + sections" where
  "parseSuggestion_exported suggestion =
     (case suggestion of
        None \<Rightarrow> Inl TypeError
      | Some s \<Rightarrow>
          let sections = parsed_sections_exported s
          in if explanation sections = [] \<and> fixedHTML sections = []
             then Inr (raw_fallback s)
             else Inr sections)"

section \<open>Vocabulary of the properties\<close>

text \<open>The pattern text \<open>p\<close> stands at the front of \<open>s\<close>, letter case ignored.\<close>

fun ci_prefix :: "jsstring \<Rightarrow> jsstring \<Rightarrow> bool" where
  "ci_prefix [] s = True"
| "ci_prefix (p # ps) [] = False"
| "ci_prefix (p # ps) (c # cs) = (if canon c = canon p then ci_prefix ps cs else False)"

text \<open>The pattern text \<open>p\<close> occurs somewhere in \<open>s\<close>, letter case ignored.\<close>

fun ci_contains :: "jsstring \<Rightarrow> jsstring \<Rightarrow> bool" where
  "ci_contains p [] = ci_prefix p []"
| "ci_contains p (c # cs) = (ci_prefix p (c # cs) \<or> ci_contains p cs)"

text \<open>A line of white space only, the empty line included.\<close>

definition blank_line :: "jsstring \<Rightarrow> bool" where
  "blank_line l = list_all is_space l"

text \<open>A line that begins with digits and a period.\<close>

definition numbered_line :: "jsstring \<Rightarrow> bool" where
  "numbered_line l =
     (takeWhile is_digit l \<noteq> [] \<and>
      (case dropWhile is_digit l of [] \<Rightarrow> False | c # rest \<Rightarrow> c = 0x2E))"

text \<open>The text of a numbered line: what follows the period, without the white space around it.\<close>

definition line_text :: "jsstring \<Rightarrow> jsstring" where
  "line_text l = (case dropWhile is_digit l of [] \<Rightarrow> [] | c # rest \<Rightarrow> trim rest)"

text \<open>A line whose first code unit is a bullet glyph.\<close>

definition starts_with_bullet :: "jsstring \<Rightarrow> bool" where
  "starts_with_bullet l = (case l of [] \<Rightarrow> False | c # rest \<Rightarrow> is_bullet c)"

text \<open>White space removed at the end only.\<close>

definition trim_end :: "jsstring \<Rightarrow> jsstring" where
  "trim_end s = rev (dropWhile is_space (rev s))"

text \<open>
  What trimming a block does to its lines: the blank lines in front go and the first line
  that stays loses its leading white space; the blank lines at the end go and the last line
  that stays loses its trailing white space.
\<close>

fun lstrip_lines :: "jsstring list \<Rightarrow> jsstring list" where
  "lstrip_lines [] = [[]]"
| "lstrip_lines [l] = [dropWhile is_space l]"
| "lstrip_lines (l # ls) =
     (if blank_line l then lstrip_lines ls else dropWhile is_space l # ls)"

fun rstrip_lines :: "jsstring list \<Rightarrow> jsstring list" where
  "rstrip_lines [] = [[]]"
| "rstrip_lines (l # ls) =
     (if list_all blank_line ls then [trim_end l] else l # rstrip_lines ls)"

text \<open>Lines joined by line feeds: the block that has these lines.\<close>

fun join_nl :: "jsstring list \<Rightarrow> jsstring" where
  "join_nl [] = []"
| "join_nl [l] = l"
| "join_nl (l # ls) = l @ 0x0A # join_nl ls"

text \<open>A line without its leading bullet glyph and the white space after the glyph.\<close>

definition after_bullet :: "jsstring \<Rightarrow> jsstring" where
  "after_bullet l =
     (case l of [] \<Rightarrow> [] | b # rest \<Rightarrow> if is_bullet b then dropWhile is_space rest else l)"

text \<open>A text without its leading ordinal, if it has one, and without white space around it.\<close>

definition after_ordinal :: "jsstring \<Rightarrow> jsstring" where
  "after_ordinal t = (if numbered_line t then line_text t else trim t)"

text \<open>The step that a line of the steps block stands for.\<close>

definition step_text :: "jsstring \<Rightarrow> jsstring" where
  "step_text l = after_ordinal (after_bullet l)"

text \<open>
  The lines of a block once the block is trimmed, as far as it matters for the steps: the
  blank lines in front are gone and the first line that stays has lost its leading white
  space.
\<close>

definition trimmed_lines :: "jsstring list \<Rightarrow> jsstring list" where
  "trimmed_lines ls =
     (case dropWhile blank_line ls of [] \<Rightarrow> [] | l # rest \<Rightarrow> dropWhile is_space l # rest)"

section \<open>Facts about the matchers\<close>

lemma ci_prefix_iff:
  "ci_prefix p s = (length p \<le> length s \<and> map canon (take (length p) s) = map canon p)"
  by (induction p s rule: ci_prefix.induct) auto

lemma lit_eq: "lit p k s = (if ci_prefix p s then k (drop (length p) s) else None)"
proof (induction p arbitrary: s)
  case Nil
  show ?case by simp
next
  case (Cons a p)
  show ?case
  proof (cases s)
    case Nil
    then show ?thesis by simp
  next
    case (Cons c cs)
    then show ?thesis using Cons.IH [of cs] by simp
  qed
qed

lemma js_match_lit_None: "\<not> ci_contains p s \<Longrightarrow> js_match (lit p k) s = None"
proof (induction s)
  case Nil
  then show ?case by (simp add: lit_eq)
next
  case (Cons c cs)
  then show ?case by (simp add: lit_eq)
qed

lemma js_match_SomeD: "js_match rx s = Some r \<Longrightarrow> \<exists>pre suf. s = pre @ suf \<and> rx suf = Some r"
proof (induction s)
  case Nil
  then show ?case by simp
next
  case (Cons c cs)
  show ?case
  proof (cases "rx (c # cs)")
    case None
    with Cons.prems have "js_match rx cs = Some r" by simp
    then obtain pre suf where "cs = pre @ suf" "rx suf = Some r"
      using Cons.IH by blast
    then have "c # cs = (c # pre) @ suf \<and> rx suf = Some r" by simp
    then show ?thesis by blast
  next
    case (Some x)
    with Cons.prems have "c # cs = [] @ (c # cs) \<and> rx (c # cs) = Some r" by simp
    then show ?thesis by blast
  qed
qed

lemma lazy_group_SomeD:
  "lazy_group k g s = Some r \<Longrightarrow> \<exists>a b. s = a @ b \<and> k (g @ a) b = Some r"
proof (induction s arbitrary: g)
  case Nil
  then show ?case by simp
next
  case (Cons c cs)
  show ?case
  proof (cases "k g (c # cs)")
    case None
    with Cons.prems have "lazy_group k (g @ [c]) cs = Some r" by simp
    then obtain a b where "cs = a @ b" "k ((g @ [c]) @ a) b = Some r"
      using Cons.IH by blast
    then have "c # cs = (c # a) @ b \<and> k (g @ c # a) b = Some r" by simp
    then show ?thesis by blast
  next
    case (Some x)
    with Cons.prems have "c # cs = [] @ (c # cs) \<and> k (g @ []) (c # cs) = Some r" by simp
    then show ?thesis by blast
  qed
qed

lemma greedy_group_SomeD:
  "greedy_group k g s = Some r \<Longrightarrow> \<exists>a b. s = a @ b \<and> k (g @ a) b = Some r"
proof (induction s arbitrary: g)
  case Nil
  then show ?case by simp
next
  case (Cons c cs)
  show ?case
  proof (cases "greedy_group k (g @ [c]) cs")
    case None
    with Cons.prems have "c # cs = [] @ (c # cs) \<and> k (g @ []) (c # cs) = Some r" by simp
    then show ?thesis by blast
  next
    case (Some x)
    with Cons.prems have "greedy_group k (g @ [c]) cs = Some r" by simp
    then obtain a b where "cs = a @ b" "k ((g @ [c]) @ a) b = Some r"
      using Cons.IH by blast
    then have "c # cs = (c # a) @ b \<and> k (g @ c # a) b = Some r" by simp
    then show ?thesis by blast
  qed
qed

lemma star_SomeD: "star P k s = Some r \<Longrightarrow> \<exists>a b. s = a @ b \<and> k b = Some r"
proof (induction s)
  case Nil
  then show ?case by simp
next
  case (Cons c cs)
  show ?case
  proof (cases "P c \<and> star P k cs \<noteq> None")
    case True
    with Cons.prems have "star P k cs = Some r" by auto
    then obtain a b where "cs = a @ b" "k b = Some r" using Cons.IH by blast
    then have "c # cs = (c # a) @ b \<and> k b = Some r" by simp
    then show ?thesis by blast
  next
    case False
    with Cons.prems have "c # cs = [] @ (c # cs) \<and> k (c # cs) = Some r" by (auto split: if_splits)
    then show ?thesis by blast
  qed
qed

lemma lazy_section_length:
  assumes "lit p (lazy_group (\<lambda>g. lookahead q (matched g)) []) s = Some g"
  shows "length p + length g \<le> length s"
proof -
  from assms have pre: "ci_prefix p s"
    and m: "lazy_group (\<lambda>g. lookahead q (matched g)) [] (drop (length p) s) = Some g"
    by (auto simp: lit_eq split: if_splits)
  from lazy_group_SomeD [OF m] obtain a b
    where ab: "drop (length p) s = a @ b" and k: "lookahead q (matched ([] @ a)) b = Some g"
    by blast
  from k have "g = a" by (auto simp: lookahead_def matched_def split: option.splits)
  moreover from ab have "length a \<le> length s - length p"
    by (metis length_append length_drop le_add1)
  moreover from pre have "length p \<le> length s" by (simp add: ci_prefix_iff)
  ultimately show ?thesis by simp
qed

lemma plus_SomeD: "plus P k s = Some r \<Longrightarrow> \<exists>a b. s = a @ b \<and> k b = Some r"
proof -
  assume "plus P k s = Some r"
  then obtain c cs where s: "s = c # cs" and "star P k cs = Some r"
    by (cases s) (simp_all add: plus_def one_def split: if_splits)
  then obtain a b where "cs = a @ b" "k b = Some r"
    using star_SomeD [of P k cs r] by auto
  with s have "s = (c # a) @ b \<and> k b = Some r" by simp
  then show ?thesis by blast
qed

lemma length_trim_le: "length (trim s) \<le> length s"
proof -
  have "length (dropWhile is_space (rev (dropWhile is_space s))) \<le> length (rev (dropWhile is_space s))"
    by (rule length_dropWhile_le)
  also have "\<dots> \<le> length s" by (simp add: length_dropWhile_le)
  finally show ?thesis by (simp add: trim_def)
qed


lemma length_js [simp]: "length (js x) = length x"
  by (simp add: js_def)

lemma heading_section_length:
  assumes "js_match (lit p (lazy_group (\<lambda>g. lookahead q (matched g)) [])) s = Some g"
  shows "length p + length g \<le> length s"
proof -
  from js_match_SomeD [OF assms] obtain pre suf
    where s: "s = pre @ suf"
      and m: "lit p (lazy_group (\<lambda>g. lookahead q (matched g)) []) suf = Some g"
    by blast
  from lazy_section_length [OF m] s show ?thesis by simp
qed

lemma explanation_numbered_length:
  assumes "js_match rx_explanation_numbered s = Some g"
  shows "length g < length s"
proof -
  let ?tail = "lit (js '' violation'') (lazy_group (\<lambda>g. lookahead (js ''2.'') (matched g)) [])"
  from js_match_SomeD [OF assms] obtain pre suf
    where s: "s = pre @ suf" and m: "rx_explanation_numbered suf = Some g"
    by blast
  from m have "plus is_word_or_hyphen ?tail (drop (length (js ''1. Explanation of this '')) suf) = Some g"
    by (simp add: rx_explanation_numbered_def lit_eq split: if_splits)
  from plus_SomeD [OF this] obtain a b
    where ab: "drop (length (js ''1. Explanation of this '')) suf = a @ b" and t: "?tail b = Some g"
    by blast
  from lazy_section_length [OF t] have "length g < length b" by simp
  also have "length b \<le> length (a @ b)" by simp
  also have "\<dots> \<le> length suf" unfolding ab [symmetric] by simp
  also have "\<dots> \<le> length s" by (simp add: s)
  finally show ?thesis .
qed

lemma explanationMatch_length:
  assumes "explanationMatch s = Some g"
  shows "length g < length s"
proof (cases "js_match rx_explanation_heading s")
  case None
  with assms have "js_match rx_explanation_numbered s = Some g"
    by (simp add: explanationMatch_def)
  then show ?thesis by (rule explanation_numbered_length)
next
  case (Some x)
  with assms have "js_match rx_explanation_heading s = Some g"
    by (simp add: explanationMatch_def)
  from heading_section_length [OF this [unfolded rx_explanation_heading_def]]
  show ?thesis by simp
qed

lemma explanation_shorter:
  assumes "s \<noteq> []"
  shows "explanation (parsed_sections s) \<noteq> s"
proof (cases "explanationMatch s")
  case None
  with assms show ?thesis by (simp add: parsed_sections_def)
next
  case (Some g)
  have "length (trim g) \<le> length g" by (rule length_trim_le)
  also have "\<dots> < length s" using Some by (rule explanationMatch_length)
  finally have "trim g \<noteq> s" by auto
  with Some show ?thesis by (simp add: parsed_sections_def)
qed

lemma mentions_iff: "mentions_implementation_steps t = ci_contains (js ''implementation steps'') t"
proof -
  have "(js_match (lit p (\<lambda>_. Some ())) t \<noteq> None) = ci_contains p t" for p
    by (induction t) (simp_all add: lit_eq)
  then show ?thesis by (simp add: mentions_implementation_steps_def)
qed

section \<open>Facts about the lines of the steps block\<close>

lemma star_Some_dropWhile: "star P Some s = Some (dropWhile P s)"
  by (induction s) simp_all

lemma strip_bullet_bullet: "is_bullet b \<Longrightarrow> strip_bullet (b # rest) = dropWhile is_space rest"
  by (simp add: strip_bullet_def one_def star_Some_dropWhile)

lemma strip_bullet_other: "\<not> starts_with_bullet l \<Longrightarrow> strip_bullet l = l"
  by (cases l) (simp_all add: strip_bullet_def one_def starts_with_bullet_def)

lemma star_run:
  assumes "list_all P ds" and "k x = Some r" and "x = [] \<or> \<not> P (hd x)"
  shows "star P k (ds @ x) = Some r"
  using assms
proof (induction ds)
  case Nil
  then show ?case by (cases x) simp_all
next
  case (Cons d ds)
  then show ?case by simp
qed

lemma not_digit_dot: "\<not> is_digit 0x2E"
  by (simp add: is_digit_def)

lemma strip_ordinal_numbered:
  assumes "ds \<noteq> []" and "list_all is_digit ds"
  shows "strip_ordinal (ds @ 0x2E # rest) = dropWhile is_space rest"
proof -
  obtain d ds' where ds: "ds = d # ds'" using assms(1) by (cases ds) auto
  with assms(2) have d: "is_digit d" and ds': "list_all is_digit ds'" by simp_all
  have "one (\<lambda>c. c = 0x2E) (star is_space Some) (0x2E # rest) = Some (dropWhile is_space rest)"
    by (simp add: one_def star_Some_dropWhile)
  with ds' have "star is_digit (one (\<lambda>c. c = 0x2E) (star is_space Some)) (ds' @ 0x2E # rest)
      = Some (dropWhile is_space rest)"
    by (intro star_run) (simp_all add: not_digit_dot)
  with d ds show ?thesis by (simp add: strip_ordinal_def plus_def one_def)
qed

lemma strip_ordinal_no_digit:
  assumes "l = [] \<or> \<not> is_digit (hd l)"
  shows "strip_ordinal l = l"
  using assms by (cases l) (simp_all add: strip_ordinal_def plus_def one_def)

lemma trim_dropWhile: "trim (dropWhile is_space s) = trim s"
  by (simp add: trim_def)

lemma dropWhile_blank: "list_all is_space s \<Longrightarrow> dropWhile is_space s = []"
  by (induction s) simp_all

lemma trim_blank: "list_all is_space s \<Longrightarrow> trim s = []"
  by (simp add: trim_def dropWhile_blank)

lemma not_space_digit: "is_digit c \<Longrightarrow> \<not> is_space c"
  unfolding is_digit_def is_space_def
  by (auto simp: word_le_def word_less_def)

lemma not_bullet_digit: "is_digit c \<Longrightarrow> \<not> is_bullet c"
  unfolding is_digit_def is_bullet_def
  by (auto simp: word_le_def)

lemma not_bullet_space: "is_space c \<Longrightarrow> \<not> is_bullet c"
  unfolding is_space_def is_bullet_def
  by (auto simp: word_le_def)


lemma split_nl_not_Nil [simp]: "split_nl t \<noteq> []"
  by (induction t) (simp_all split: list.splits)

lemma blank_split: "list_all blank_line (split_nl t) = list_all is_space t"
proof (induction t)
  case Nil
  show ?case by (simp add: blank_line_def)
next
  case (Cons c cs)
  obtain l ls where sp: "split_nl cs = l # ls" by (cases "split_nl cs") simp_all
  show ?case
  proof (cases "c = 0x0A")
    case True
    with Cons show ?thesis by (simp add: blank_line_def is_space_def)
  next
    case False
    with Cons sp show ?thesis by (simp add: blank_line_def)
  qed
qed

lemma split_ltrim: "split_nl (dropWhile is_space t) = lstrip_lines (split_nl t)"
proof (induction t)
  case Nil
  show ?case by simp
next
  case (Cons c cs)
  obtain l ls where sp: "split_nl cs = l # ls" by (cases "split_nl cs") simp_all
  show ?case
  proof (cases "c = 0x0A")
    case True
    then have "is_space c" by (simp add: is_space_def)
    with True Cons sp show ?thesis by (simp add: blank_line_def)
  next
    case nl: False
    show ?thesis
    proof (cases "is_space c")
      case True
      with nl Cons sp show ?thesis by (cases ls) (simp_all add: blank_line_def)
    next
      case False
      with nl sp show ?thesis by (cases ls) (simp_all add: blank_line_def)
    qed
  qed
qed

lemma trim_end_Cons:
  "trim_end (c # cs) = (if list_all is_space (c # cs) then [] else c # trim_end cs)"
proof (cases "list_all is_space cs")
  case True
  then have "dropWhile is_space (rev cs) = []" by (simp add: dropWhile_blank)
  with True show ?thesis
    by (simp add: trim_end_def dropWhile_append list_all_iff)
next
  case False
  then show ?thesis
    by (auto simp: trim_end_def dropWhile_append list_all_iff)
qed

lemma trim_end_Nil [simp]: "trim_end [] = []"
  by (simp add: trim_end_def)

lemma split_rtrim: "split_nl (trim_end t) = rstrip_lines (split_nl t)"
proof (induction t)
  case Nil
  show ?case by simp
next
  case (Cons c cs)
  obtain l ls where sp: "split_nl cs = l # ls" by (cases "split_nl cs") simp_all
  have bl: "list_all is_space cs = (blank_line l \<and> list_all blank_line ls)"
    using blank_split [of cs] sp by simp
  show ?case
  proof (cases "c = 0x0A")
    case True
    then have "is_space c" by (simp add: is_space_def)
    with True Cons sp bl show ?thesis by (simp add: trim_end_Cons)
  next
    case nl: False
    show ?thesis
    proof (cases "list_all blank_line ls")
      case True
      with nl Cons sp bl show ?thesis
        by (simp add: trim_end_Cons blank_line_def)
    next
      case False
      with nl Cons sp bl show ?thesis by (simp add: trim_end_Cons)
    qed
  qed
qed

lemma trim_eq: "trim s = trim_end (dropWhile is_space s)"
  by (simp add: trim_def trim_end_def)

lemma split_trim: "split_nl (trim t) = rstrip_lines (lstrip_lines (split_nl t))"
  by (simp add: trim_eq split_rtrim split_ltrim)


lemma trim_end_dropWhile: "trim_end (dropWhile is_space s) = dropWhile is_space (trim_end s)"
proof (induction s)
  case Nil
  show ?case by simp
next
  case (Cons c cs)
  show ?case
  proof (cases "list_all is_space (c # cs)")
    case True
    then show ?thesis by (simp add: trim_end_Cons dropWhile_blank)
  next
    case False
    show ?thesis
    proof (cases "is_space c")
      case True
      with False Cons show ?thesis by (simp add: trim_end_Cons)
    next
      case nsp: False
      then show ?thesis by (simp add: trim_end_Cons)
    qed
  qed
qed

lemma trim_end_idem: "trim_end (trim_end s) = trim_end s"
  by (simp add: trim_end_def)

lemma trim_trim_end: "trim (trim_end s) = trim s"
  by (simp add: trim_eq trim_end_dropWhile [symmetric] trim_end_idem)

lemma trim_end_blank: "list_all is_space s \<Longrightarrow> trim_end s = []"
  by (cases s) (simp_all add: trim_end_Cons)

lemma trim_end_after_nonspace:
  assumes "\<not> is_space c"
  shows "trim_end (a @ c # r) = a @ c # trim_end r"
proof (induction a)
  case Nil
  from assms show ?case by (simp add: trim_end_Cons)
next
  case (Cons x a)
  from assms have "\<not> list_all is_space (x # a @ c # r)" by simp
  with Cons show ?case by (simp add: trim_end_Cons)
qed

lemma not_space_dot: "\<not> is_space 0x2E"
  by (simp add: is_space_def)

lemma numbered_lineD:
  assumes "numbered_line l"
  obtains ds rest where "l = ds @ 0x2E # rest" "ds \<noteq> []" "list_all is_digit ds"
proof -
  from assms obtain rest where d: "dropWhile is_digit l = 0x2E # rest"
    and t: "takeWhile is_digit l \<noteq> []"
    by (auto simp: numbered_line_def split: list.splits)
  have "l = takeWhile is_digit l @ dropWhile is_digit l" by simp
  with d have "l = takeWhile is_digit l @ 0x2E # rest" by simp
  moreover have "list_all is_digit (takeWhile is_digit l)"
    by (simp add: list_all_iff) (meson set_takeWhileD)
  ultimately show ?thesis using t that by blast
qed

lemma digits_then_dot:
  assumes "list_all is_digit ds"
  shows "takeWhile is_digit (ds @ 0x2E # rest) = ds"
    and "dropWhile is_digit (ds @ 0x2E # rest) = 0x2E # rest"
  using assms by (induction ds) (simp_all add: not_digit_dot)

lemma numbered_lineI:
  assumes "ds \<noteq> []" "list_all is_digit ds"
  shows "numbered_line (ds @ 0x2E # rest)"
  using assms by (simp add: numbered_line_def digits_then_dot)

lemma line_text_numbered:
  assumes "list_all is_digit ds"
  shows "line_text (ds @ 0x2E # rest) = trim rest"
  using assms by (simp add: line_text_def digits_then_dot)

lemma clean_step_numbered:
  assumes "numbered_line l"
  shows "clean_step l = line_text l"
proof -
  from assms obtain ds rest
    where l: "l = ds @ 0x2E # rest" and ne: "ds \<noteq> []" and dg: "list_all is_digit ds"
    by (rule numbered_lineD)
  from ne dg have "\<not> starts_with_bullet l"
    by (cases ds) (simp_all add: l starts_with_bullet_def not_bullet_digit)
  then have "strip_bullet l = l" by (rule strip_bullet_other)
  moreover have "strip_ordinal l = dropWhile is_space rest"
    unfolding l using ne dg by (rule strip_ordinal_numbered)
  ultimately have "clean_step l = trim rest" by (simp add: clean_step_def trim_dropWhile)
  with dg show ?thesis by (simp add: l line_text_numbered)
qed

lemma clean_step_blank:
  assumes "blank_line l"
  shows "clean_step l = []"
proof -
  from assms have sp: "list_all is_space l" by (simp add: blank_line_def)
  then have "\<not> starts_with_bullet l"
    by (cases l) (simp_all add: starts_with_bullet_def not_bullet_space)
  then have "strip_bullet l = l" by (rule strip_bullet_other)
  moreover from sp have "l = [] \<or> \<not> is_digit (hd l)"
    using not_space_digit by (cases l) auto
  then have "strip_ordinal l = l" by (rule strip_ordinal_no_digit)
  ultimately show ?thesis using sp by (simp add: clean_step_def trim_blank)
qed

lemma numbered_trim_end:
  assumes "numbered_line l"
  shows "numbered_line (trim_end l)" and "line_text (trim_end l) = line_text l"
proof -
  from assms obtain ds rest
    where l: "l = ds @ 0x2E # rest" and ne: "ds \<noteq> []" and dg: "list_all is_digit ds"
    by (rule numbered_lineD)
  have te: "trim_end l = ds @ 0x2E # trim_end rest"
    unfolding l using not_space_dot by (rule trim_end_after_nonspace)
  show "numbered_line (trim_end l)" unfolding te using ne dg by (rule numbered_lineI)
  have "line_text (trim_end l) = trim (trim_end rest)"
    unfolding te using dg by (rule line_text_numbered)
  also have "\<dots> = trim rest" by (rule trim_trim_end)
  also have "\<dots> = line_text l" unfolding l using dg by (rule line_text_numbered [symmetric])
  finally show "line_text (trim_end l) = line_text l" .
qed

lemma numbered_no_leading_space:
  assumes "numbered_line l"
  shows "dropWhile is_space l = l"
proof -
  from assms obtain ds rest
    where l: "l = ds @ 0x2E # rest" and ne: "ds \<noteq> []" and dg: "list_all is_digit ds"
    by (rule numbered_lineD)
  then show ?thesis by (cases ds) (simp_all add: not_space_digit)
qed

lemma not_keep_Nil: "\<not> keep_step []"
  by (simp add: keep_step_def)


lemma clean_step_Nil: "clean_step [] = []"
  by (rule clean_step_blank) (simp add: blank_line_def)

lemma clean_step_trim_end:
  assumes "blank_line l \<or> numbered_line l"
  shows "clean_step (trim_end l) = clean_step l"
proof (cases "blank_line l")
  case True
  then have "trim_end l = []" by (simp add: blank_line_def trim_end_blank)
  then show ?thesis using True by (simp add: clean_step_blank clean_step_Nil)
next
  case False
  with assms have n: "numbered_line l" by simp
  then show ?thesis by (simp add: clean_step_numbered numbered_trim_end)
qed

lemma steps_blank_lines:
  assumes "list_all blank_line ls"
  shows "filter keep_step (map clean_step ls) = []"
  using assms by (induction ls) (simp_all add: clean_step_blank not_keep_Nil)

lemma steps_lstrip:
  assumes "\<forall>l\<in>set ls. blank_line l \<or> numbered_line l"
  shows "filter keep_step (map clean_step (lstrip_lines ls)) = filter keep_step (map clean_step ls)
         \<and> (\<forall>l\<in>set (lstrip_lines ls). blank_line l \<or> numbered_line l)"
  using assms
proof (induction ls rule: lstrip_lines.induct)
  case 1
  show ?case by (simp add: blank_line_def clean_step_Nil not_keep_Nil)
next
  case (2 l)
  show ?case
  proof (cases "blank_line l")
    case True
    then have d: "dropWhile is_space l = []" by (simp add: blank_line_def dropWhile_blank)
    from True show ?thesis by (simp add: d clean_step_blank clean_step_Nil not_keep_Nil blank_line_def)
  next
    case False
    with 2 have "numbered_line l" by simp
    then show ?thesis by (simp add: numbered_no_leading_space)
  qed
next
  case (3 l l2 ls)
  show ?case
  proof (cases "blank_line l")
    case True
    with 3 show ?thesis by (simp add: clean_step_blank not_keep_Nil)
  next
    case False
    with 3 have "numbered_line l" by simp
    with False 3 show ?thesis by (simp add: numbered_no_leading_space)
  qed
qed

lemma steps_rstrip:
  assumes "\<forall>l\<in>set ls. blank_line l \<or> numbered_line l"
  shows "filter keep_step (map clean_step (rstrip_lines ls)) = filter keep_step (map clean_step ls)"
  using assms
proof (induction ls)
  case Nil
  show ?case by (simp add: clean_step_Nil not_keep_Nil)
next
  case (Cons l ls)
  show ?case
  proof (cases "list_all blank_line ls")
    case True
    from Cons.prems have "blank_line l \<or> numbered_line l" by simp
    then have "clean_step (trim_end l) = clean_step l" by (rule clean_step_trim_end)
    with True show ?thesis by (simp add: steps_blank_lines)
  next
    case False
    with Cons show ?thesis by simp
  qed
qed

lemma steps_of_block:
  assumes "\<forall>l\<in>set (split_nl g). blank_line l \<or> numbered_line l"
  shows "steps_of g = filter keep_step (map clean_step (split_nl g))"
proof -
  from steps_lstrip [OF assms]
  have a: "filter keep_step (map clean_step (lstrip_lines (split_nl g)))
           = filter keep_step (map clean_step (split_nl g))"
    and b: "\<forall>l\<in>set (lstrip_lines (split_nl g)). blank_line l \<or> numbered_line l"
    by simp_all
  from steps_rstrip [OF b] a show ?thesis
    by (simp add: steps_of_def split_trim)
qed

lemma keep_step_eq:
  "keep_step = (\<lambda>t. t \<noteq> [] \<and> \<not> ci_contains (js ''implementation steps'') t)"
  by (rule ext) (simp add: keep_step_def mentions_iff)

lemma steps_numbered_lines:
  assumes "\<forall>l\<in>set ls. blank_line l \<or> numbered_line l"
  shows "filter keep_step (map clean_step ls)
         = filter keep_step (map line_text (filter numbered_line ls))"
  using assms
proof (induction ls)
  case Nil
  show ?case by simp
next
  case (Cons l ls)
  show ?case
  proof (cases "numbered_line l")
    case True
    with Cons show ?thesis by (simp add: clean_step_numbered)
  next
    case False
    with Cons.prems have "blank_line l" by simp
    with False Cons show ?thesis by (simp add: clean_step_blank not_keep_Nil)
  qed
qed

lemma parse_not_fallback:
  assumes "parseSuggestion (Some s) = Some r" and "r \<noteq> raw_fallback s"
  shows "r = parsed_sections s"
  using assms by (auto simp: parseSuggestion_def Let_def split: if_splits)

lemma steps_parsed_sections:
  assumes "stepsMatch s = Some g"
  shows "steps (parsed_sections s) = steps_of g"
  using assms by (simp add: parsed_sections_def)

section \<open>Facts about occurrences of a marker\<close>

lemma ci_prefix_append: "ci_prefix p a \<Longrightarrow> ci_prefix p (a @ b)"
  by (simp add: ci_prefix_iff)

lemma ci_contains_prefix: "ci_prefix p s \<Longrightarrow> ci_contains p s"
  by (cases s) simp_all

lemma ci_contains_append2: "ci_contains p b \<Longrightarrow> ci_contains p (a @ b)"
  by (induction a) simp_all

lemma ci_contains_append1: "ci_contains p a \<Longrightarrow> ci_contains p (a @ b)"
proof (induction a)
  case Nil
  then have "ci_prefix p []" by simp
  then have "ci_prefix p ([] @ b)" by (rule ci_prefix_append)
  then have "ci_contains p ([] @ b)" by (rule ci_contains_prefix)
  then show ?case .
next
  case (Cons c cs)
  show ?case
  proof (cases "ci_prefix p (c # cs)")
    case True
    then have "ci_prefix p ((c # cs) @ b)" by (rule ci_prefix_append)
    then show ?thesis by simp
  next
    case False
    with Cons show ?thesis by simp
  qed
qed

lemma ci_contains_dropWhile:
  assumes "ci_contains p (dropWhile P s)"
  shows "ci_contains p s"
proof -
  from assms have "ci_contains p (takeWhile P s @ dropWhile P s)" by (rule ci_contains_append2)
  then show ?thesis by simp
qed

lemma trim_end_prefix: "s = trim_end s @ rev (takeWhile is_space (rev s))"
proof -
  have "rev (takeWhile is_space (rev s) @ dropWhile is_space (rev s)) = s"
    by (simp only: takeWhile_dropWhile_id rev_rev_ident)
  then have "rev (dropWhile is_space (rev s)) @ rev (takeWhile is_space (rev s)) = s"
    by (simp only: rev_append)
  then show ?thesis by (simp only: trim_end_def)
qed

lemma ci_contains_trim_end:
  assumes "ci_contains p (trim_end s)"
  shows "ci_contains p s"
proof -
  from assms have "ci_contains p (trim_end s @ rev (takeWhile is_space (rev s)))"
    by (rule ci_contains_append1)
  with trim_end_prefix [of s] show ?thesis by simp
qed

lemma ci_contains_trim:
  assumes "ci_contains p (trim s)"
  shows "ci_contains p s"
proof -
  from assms have "ci_contains p (trim_end (dropWhile is_space s))" by (simp only: trim_eq)
  then have "ci_contains p (dropWhile is_space s)" by (rule ci_contains_trim_end)
  then show ?thesis by (rule ci_contains_dropWhile)
qed

lemma strip_ordinal_suffix: "\<exists>a. l = a @ strip_ordinal l"
proof (cases "plus is_digit (one (\<lambda>c. c = 0x2E) (star is_space Some)) l")
  case None
  then have "l = [] @ strip_ordinal l" by (simp add: strip_ordinal_def)
  then show ?thesis by (rule exI)
next
  case (Some rest)
  from plus_SomeD [OF Some] obtain a b
    where l: "l = a @ b" and o: "one (\<lambda>c. c = 0x2E) (star is_space Some) b = Some rest"
    by blast
  from o obtain c b' where b: "b = c # b'" and "star is_space Some b' = Some rest"
    by (cases b) (simp_all add: one_def split: if_splits)
  then have "rest = dropWhile is_space b'" by (simp add: star_Some_dropWhile)
  then have "b' = takeWhile is_space b' @ rest" by simp
  with l b have "l = (a @ c # takeWhile is_space b') @ rest" by simp
  moreover from Some have "strip_ordinal l = rest" by (simp add: strip_ordinal_def)
  ultimately have "l = (a @ c # takeWhile is_space b') @ strip_ordinal l" by simp
  then show ?thesis by (rule exI)
qed

lemma ci_contains_strip_ordinal:
  assumes "ci_contains p (strip_ordinal l)"
  shows "ci_contains p l"
proof -
  obtain a where a: "l = a @ strip_ordinal l" using strip_ordinal_suffix [of l] by (rule exE)
  from assms have "ci_contains p (a @ strip_ordinal l)" by (rule ci_contains_append2)
  with a show ?thesis by simp
qed

lemma ci_contains_clean_step_exported:
  assumes "ci_contains p (clean_step_exported l)"
  shows "ci_contains p l"
proof -
  from assms have "ci_contains p (trim (strip_ordinal l))" by (simp only: clean_step_exported_def)
  then have "ci_contains p (strip_ordinal l)" by (rule ci_contains_trim)
  then show ?thesis by (rule ci_contains_strip_ordinal)
qed

lemma greedy_group_matched: "greedy_group matched g s = Some (g @ s)"
  by (induction s arbitrary: g) (simp_all add: matched_def)

lemma js_match_lit_greedy:
  assumes "ci_contains p s"
  shows "\<exists>x. js_match (lit p (greedy_group matched [])) s = Some x"
  using assms
proof (induction s)
  case Nil
  then show ?case by (simp add: lit_eq greedy_group_matched)
next
  case (Cons c cs)
  show ?case
  proof (cases "ci_prefix p (c # cs)")
    case True
    then show ?thesis by (simp add: lit_eq greedy_group_matched)
  next
    case False
    with Cons show ?thesis by (simp add: lit_eq)
  qed
qed

lemma steps_agree:
  assumes "\<forall>l\<in>set ls. \<not> starts_with_bullet l \<and> \<not> ci_contains (js ''implementation steps'') l"
  shows "filter keep_step (map clean_step ls)
         = filter keep_step_exported (map clean_step_exported ls)"
  using assms
proof (induction ls)
  case Nil
  show ?case by simp
next
  case (Cons l ls)
  from Cons.prems have nb: "\<not> starts_with_bullet l"
    and np: "\<not> ci_contains (js ''implementation steps'') l" by simp_all
  from nb have c: "clean_step l = clean_step_exported l"
    by (simp add: clean_step_def clean_step_exported_def strip_bullet_other)
  have "\<not> ci_contains (js ''implementation steps'') (clean_step_exported l)"
  proof
    assume "ci_contains (js ''implementation steps'') (clean_step_exported l)"
    then have "ci_contains (js ''implementation steps'') l"
      by (rule ci_contains_clean_step_exported)
    with np show False by simp
  qed
  then have "keep_step (clean_step_exported l) = keep_step_exported (clean_step_exported l)"
    by (simp add: keep_step_def keep_step_exported_def mentions_iff)
  with c Cons show ?case by simp
qed

section \<open>Facts about the text of a line\<close>

lemma star_all_fail:
  assumes "\<And>c cs. P c \<Longrightarrow> k (c # cs) = None"
  shows "star P k s = k (dropWhile P s)"
proof (induction s)
  case Nil
  show ?case by simp
next
  case (Cons c cs)
  show ?case
  proof (cases "P c")
    case True
    with assms have "k (c # cs) = None" by simp
    with True Cons show ?thesis by (simp split: option.splits)
  next
    case False
    then show ?thesis by simp
  qed
qed

lemma dot_after_digit_fails:
  assumes "is_digit c"
  shows "one (\<lambda>c. c = 0x2E) k (c # cs) = None"
proof -
  from assms have "c \<noteq> 0x2E" using not_digit_dot by auto
  then show ?thesis by (simp add: one_def)
qed

lemma strip_ordinal_not_numbered:
  assumes "\<not> numbered_line t"
  shows "strip_ordinal t = t"
proof (cases t)
  case Nil
  then show ?thesis by (simp add: strip_ordinal_def plus_def one_def)
next
  case tc: (Cons c cs)
  show ?thesis
  proof (cases "is_digit c")
    case False
    with tc show ?thesis by (simp add: strip_ordinal_def plus_def one_def)
  next
    case True
    let ?k = "one (\<lambda>c. c = 0x2E) (star is_space Some)"
    have st: "star is_digit ?k cs = ?k (dropWhile is_digit cs)"
      by (rule star_all_fail) (rule dot_after_digit_fails)
    have "?k (dropWhile is_digit cs) = None"
    proof (cases "dropWhile is_digit cs")
      case Nil
      show ?thesis unfolding Nil by (simp add: one_def)
    next
      case (Cons d ds)
      from assms True have "d \<noteq> 0x2E" by (simp add: tc Cons numbered_line_def)
      then show ?thesis unfolding Cons by (simp add: one_def)
    qed
    with st True tc show ?thesis by (simp add: strip_ordinal_def plus_def one_def)
  qed
qed

lemma trim_strip_ordinal: "trim (strip_ordinal t) = after_ordinal t"
proof (cases "numbered_line t")
  case True
  then obtain ds rest
    where t: "t = ds @ 0x2E # rest" and ne: "ds \<noteq> []" and dg: "list_all is_digit ds"
    by (rule numbered_lineD)
  have "strip_ordinal t = dropWhile is_space rest"
    unfolding t using ne dg by (rule strip_ordinal_numbered)
  then have "trim (strip_ordinal t) = trim rest" by (simp add: trim_dropWhile)
  also have "\<dots> = line_text t" unfolding t using dg by (rule line_text_numbered [symmetric])
  finally show ?thesis using True by (simp add: after_ordinal_def)
next
  case False
  then show ?thesis by (simp add: after_ordinal_def strip_ordinal_not_numbered)
qed

lemma strip_bullet_eq: "strip_bullet l = after_bullet l"
proof (cases l)
  case Nil
  then show ?thesis by (simp add: after_bullet_def strip_bullet_def one_def)
next
  case (Cons b rest)
  show ?thesis
  proof (cases "is_bullet b")
    case True
    with Cons show ?thesis by (simp add: after_bullet_def strip_bullet_bullet)
  next
    case False
    with Cons have "\<not> starts_with_bullet l" by (simp add: starts_with_bullet_def)
    then have "strip_bullet l = l" by (rule strip_bullet_other)
    with False Cons show ?thesis by (simp add: after_bullet_def)
  qed
qed

lemma clean_step_eq: "clean_step l = step_text l"
  by (simp add: clean_step_def step_text_def strip_bullet_eq trim_strip_ordinal)

lemma numbered_line_append:
  assumes "numbered_line a"
  shows "numbered_line (a @ b)"
proof -
  from assms obtain ds rest
    where a: "a = ds @ 0x2E # rest" and ne: "ds \<noteq> []" and dg: "list_all is_digit ds"
    by (rule numbered_lineD)
  from ne dg have "numbered_line (ds @ 0x2E # (rest @ b))" by (rule numbered_lineI)
  with a show ?thesis by simp
qed

lemma numbered_line_trim_end: "numbered_line (trim_end t) = numbered_line t"
proof
  assume "numbered_line (trim_end t)"
  then have "numbered_line (trim_end t @ rev (takeWhile is_space (rev t)))"
    by (rule numbered_line_append)
  with trim_end_prefix [of t] show "numbered_line t" by simp
next
  assume "numbered_line t"
  then show "numbered_line (trim_end t)" by (rule numbered_trim_end)
qed

lemma after_ordinal_trim_end: "after_ordinal (trim_end t) = after_ordinal t"
  by (simp add: after_ordinal_def numbered_line_trim_end numbered_trim_end trim_trim_end)

lemma after_bullet_trim_end: "after_bullet (trim_end l) = trim_end (after_bullet l)"
proof (cases l)
  case Nil
  then show ?thesis by (simp add: after_bullet_def)
next
  case (Cons b rest)
  show ?thesis
  proof (cases "is_bullet b")
    case True
    then have "\<not> is_space b" using not_bullet_space by blast
    with True Cons show ?thesis
      by (simp add: after_bullet_def trim_end_Cons trim_end_dropWhile)
  next
    case False
    with Cons show ?thesis by (simp add: after_bullet_def trim_end_Cons)
  qed
qed

lemma step_text_trim_end: "step_text (trim_end l) = step_text l"
  by (simp add: step_text_def after_bullet_trim_end after_ordinal_trim_end)

lemma step_text_blank:
  assumes "blank_line l"
  shows "step_text l = []"
  using clean_step_blank [OF assms] by (simp add: clean_step_eq)

lemma texts_blank_lines:
  assumes "list_all blank_line ls"
  shows "filter keep_step (map step_text ls) = []"
  using assms by (induction ls) (simp_all add: step_text_blank not_keep_Nil)

lemma texts_rstrip:
  "filter keep_step (map step_text (rstrip_lines ls)) = filter keep_step (map step_text ls)"
proof (induction ls)
  case Nil
  have "step_text [] = []" by (rule step_text_blank) (simp add: blank_line_def)
  then show ?case by (simp add: not_keep_Nil)
next
  case (Cons l ls)
  show ?case
  proof (cases "list_all blank_line ls")
    case True
    then show ?thesis by (simp add: texts_blank_lines step_text_trim_end)
  next
    case False
    with Cons show ?thesis by simp
  qed
qed

lemma texts_lstrip:
  "filter keep_step (map step_text (lstrip_lines ls))
   = filter keep_step (map step_text (trimmed_lines ls))"
proof (induction ls rule: lstrip_lines.induct)
  case 1
  have "step_text [] = []" by (rule step_text_blank) (simp add: blank_line_def)
  then show ?case by (simp add: trimmed_lines_def not_keep_Nil)
next
  case (2 l)
  show ?case
  proof (cases "blank_line l")
    case True
    then have d: "dropWhile is_space l = []" by (simp add: blank_line_def dropWhile_blank)
    have "step_text [] = []" by (rule step_text_blank) (simp add: blank_line_def)
    with True show ?thesis by (simp add: d trimmed_lines_def not_keep_Nil)
  next
    case False
    then show ?thesis by (simp add: trimmed_lines_def)
  qed
next
  case (3 l l2 ls)
  show ?case
  proof (cases "blank_line l")
    case True
    with 3 show ?thesis by (simp add: trimmed_lines_def)
  next
    case False
    then show ?thesis by (simp add: trimmed_lines_def)
  qed
qed

lemma split_nl_line:
  assumes "0x0A \<notin> set l"
  shows "split_nl (l @ 0x0A # rest) = l # split_nl rest" and "split_nl l = [l]"
  using assms by (induction l) simp_all

lemma split_join:
  assumes "\<forall>l\<in>set ls. 0x0A \<notin> set l" and "ls \<noteq> []"
  shows "split_nl (join_nl ls) = ls"
  using assms
proof (induction ls rule: join_nl.induct)
  case 1
  then show ?case by simp
next
  case (2 l)
  then show ?case by (simp add: split_nl_line)
next
  case (3 l l2 ls)
  then show ?case by (simp add: split_nl_line)
qed

lemma steps_of_join:
  assumes "\<forall>l\<in>set ls. 0x0A \<notin> set l"
  shows "steps_of (join_nl ls) = filter keep_step (map step_text (trimmed_lines ls))"
proof (cases "ls = []")
  case True
  have "step_text [] = []" by (rule step_text_blank) (simp add: blank_line_def)
  with True show ?thesis
    by (simp add: steps_of_def trim_def clean_step_eq trimmed_lines_def not_keep_Nil)
next
  case False
  with assms have sj: "split_nl (join_nl ls) = ls" by (rule split_join)
  have "steps_of (join_nl ls)
        = filter keep_step (map step_text (rstrip_lines (lstrip_lines ls)))"
    by (simp add: steps_of_def split_trim sj clean_step_eq [abs_def])
  also have "\<dots> = filter keep_step (map step_text (lstrip_lines ls))" by (rule texts_rstrip)
  also have "\<dots> = filter keep_step (map step_text (trimmed_lines ls))" by (rule texts_lstrip)
  finally show ?thesis .
qed

lemma parse_cases:
  assumes "parseSuggestion (Some s) = Some r"
  shows "r = raw_fallback s \<or> r = parsed_sections s"
  using assms by (auto simp: parseSuggestion_def Let_def split: if_splits)

section \<open>The no-value result\<close>

text \<open>
  C1, as the code has it. \<^verbatim>\<open>parseSuggestion\<close> of ResultsView.js returns \<^verbatim>\<open>null\<close> exactly
  when the input is absent, \<^verbatim>\<open>null\<close> or the empty string; for every other string,
  white space only included, it returns a record, whose three text fields are strings and
  whose steps are a sequence.
\<close>

theorem null_result_iff_absent_or_empty:
  "(parseSuggestion x = None) = (x = None \<or> x = Some [])"
  by (cases x) (simp_all add: parseSuggestion_def Let_def)

theorem null_result_iff_absent_or_empty_witness:
  "parseSuggestion (Some (js '' '')) \<noteq> None"
  using null_result_iff_absent_or_empty [of "Some (js '' '')"] by (simp add: js_def)

text \<open>
  C1 as stated fails at the empty string: it is not \<^verbatim>\<open>null\<close>, and the guard
  \<^verbatim>\<open>if (!suggestion) return null\<close> returns \<^verbatim>\<open>null\<close> for it.
\<close>

theorem empty_string_gives_null:
  "parseSuggestion (Some (js '''')) = None"
  by (simp add: parseSuggestion_def js_def)

section \<open>The fallback record\<close>

text \<open>
  C2, as the code has it. For a non-empty input the fallback record is returned if and only
  if the explanation and the fixed markup are both empty after matching and trimming: each
  of the two markers is either not found or followed by white space only up to the next
  marker. A marker that matched with empty content does not keep the fallback away.
\<close>

theorem fallback_iff_both_fields_empty:
  assumes "s \<noteq> []"
  shows "(parseSuggestion (Some s) = Some (raw_fallback s)) =
         ((case explanationMatch s of None \<Rightarrow> True | Some g \<Rightarrow> trim g = []) \<and>
          (case fixedHTMLMatch s of None \<Rightarrow> True | Some g \<Rightarrow> trim g = []))"
proof -
  let ?sec = "parsed_sections s"
  have fields:
    "((case explanationMatch s of None \<Rightarrow> True | Some g \<Rightarrow> trim g = []) \<and>
      (case fixedHTMLMatch s of None \<Rightarrow> True | Some g \<Rightarrow> trim g = []))
     = (explanation ?sec = [] \<and> fixedHTML ?sec = [])"
    by (simp add: parsed_sections_def split: option.splits)
  show ?thesis
  proof (cases "explanation ?sec = [] \<and> fixedHTML ?sec = []")
    case True
    with assms fields show ?thesis by (simp add: parseSuggestion_def Let_def)
  next
    case False
    with assms have "parseSuggestion (Some s) = Some ?sec"
      by (auto simp: parseSuggestion_def Let_def)
    moreover have "?sec \<noteq> raw_fallback s"
    proof
      assume "?sec = raw_fallback s"
      then have "explanation ?sec = explanation (raw_fallback s)" by simp
      then have "explanation ?sec = s" by (simp add: raw_fallback_def)
      with explanation_shorter [OF assms] show False by simp
    qed
    ultimately show ?thesis using False fields by simp
  qed
qed

theorem fallback_iff_both_fields_empty_witness:
  \<open>js ''### Concise Technical Explanation\<newline>### Fixed HTML Snippet\<newline><img alt="">\<newline>###'' \<noteq> [] \<and>
   parseSuggestion (Some (js ''### Concise Technical Explanation\<newline>### Fixed HTML Snippet\<newline><img alt="">\<newline>###''))
     \<noteq> Some (raw_fallback (js ''### Concise Technical Explanation\<newline>### Fixed HTML Snippet\<newline><img alt="">\<newline>###''))\<close>
proof -
  let ?s = \<open>js ''### Concise Technical Explanation\<newline>### Fixed HTML Snippet\<newline><img alt="">\<newline>###''\<close>
  have ne: "?s \<noteq> []" by (simp add: js_def)
  have "fixedHTMLMatch ?s = Some (js ''\<newline><img alt=\"\">\<newline>'')" by code_simp
  moreover have "trim (js ''\<newline><img alt=\"\">\<newline>'') \<noteq> []" by code_simp
  ultimately show ?thesis
    using fallback_iff_both_fields_empty [OF ne] ne by simp
qed

text \<open>
  C2 as stated fails where both markers are found with nothing between a marker and the
  next one: both fields are empty, so the fallback is taken and the steps section, which
  matched as well, is dropped.
\<close>

theorem empty_sections_take_fallback:
  "explanationMatch (js ''### Concise Technical Explanation### Fixed HTML Snippet### Implementation Steps\<newline>1. Add alt attribute\<newline>### WCAG Reference\<newline>1.1.1'') = Some []
   \<and> fixedHTMLMatch (js ''### Concise Technical Explanation### Fixed HTML Snippet### Implementation Steps\<newline>1. Add alt attribute\<newline>### WCAG Reference\<newline>1.1.1'') = Some []
   \<and> stepsMatch (js ''### Concise Technical Explanation### Fixed HTML Snippet### Implementation Steps\<newline>1. Add alt attribute\<newline>### WCAG Reference\<newline>1.1.1'') = Some (js ''\<newline>1. Add alt attribute\<newline>'')
   \<and> parseSuggestion (Some (js ''### Concise Technical Explanation### Fixed HTML Snippet### Implementation Steps\<newline>1. Add alt attribute\<newline>### WCAG Reference\<newline>1.1.1''))
       = Some \<lparr> explanation = js ''### Concise Technical Explanation### Fixed HTML Snippet### Implementation Steps\<newline>1. Add alt attribute\<newline>### WCAG Reference\<newline>1.1.1'',
                fixedHTML = [], steps = [], wcag = [] \<rparr>"
  by code_simp

text \<open>
  C5, as the code has it. For every non-empty input that contains neither explanation
  marker and neither fixed-markup marker, white space only included, the explanation is the
  input itself, not trimmed, and the other three fields are empty.
\<close>

theorem no_markers_raw_explanation:
  assumes "s \<noteq> []"
    and "\<not> ci_contains (js ''### Concise Technical Explanation'') s"
    and "\<not> ci_contains (js ''1. Explanation of this '') s"
    and "\<not> ci_contains (js ''### Fixed HTML Snippet'') s"
    and "\<not> ci_contains (js ''2. Fixed HTML code'') s"
  shows "parseSuggestion (Some s) =
           Some \<lparr> explanation = s, fixedHTML = [], steps = [], wcag = [] \<rparr>"
proof -
  have "explanationMatch s = None"
    using assms(2,3)
    by (simp add: explanationMatch_def rx_explanation_heading_def
        rx_explanation_numbered_def js_match_lit_None)
  moreover have "fixedHTMLMatch s = None"
    using assms(4,5)
    by (simp add: fixedHTMLMatch_def rx_fixedHTML_heading_def
        rx_fixedHTML_numbered_def js_match_lit_None)
  ultimately show ?thesis using assms(1)
    by (simp add: parseSuggestion_def Let_def parsed_sections_def raw_fallback_def)
qed

theorem no_markers_raw_explanation_witness:
  "parseSuggestion (Some (js ''   '')) =
     Some \<lparr> explanation = js ''   '', fixedHTML = [], steps = [], wcag = [] \<rparr>"
proof -
  have "js ''   '' \<noteq> []" by (simp add: js_def)
  moreover have "\<not> ci_contains (js ''### Concise Technical Explanation'') (js ''   '')"
    by code_simp
  moreover have "\<not> ci_contains (js ''1. Explanation of this '') (js ''   '')"
    by code_simp
  moreover have "\<not> ci_contains (js ''### Fixed HTML Snippet'') (js ''   '')"
    by code_simp
  moreover have "\<not> ci_contains (js ''2. Fixed HTML code'') (js ''   '')"
    by code_simp
  ultimately show ?thesis by (rule no_markers_raw_explanation)
qed

text \<open>
  C5 as stated fails on an input with white space around it: the explanation of the
  fallback record is the input as it came, which is not its trimmed form.
\<close>

theorem fallback_is_not_trimmed:
  "parseSuggestion (Some (js '' Add alt text. '')) =
     Some \<lparr> explanation = js '' Add alt text. '', fixedHTML = [], steps = [], wcag = [] \<rparr>
   \<and> trim (js '' Add alt text. '') = js ''Add alt text.''
   \<and> js '' Add alt text. '' \<noteq> js ''Add alt text.''"
  by code_simp

text \<open>
  C9. For a non-empty input, when the explanation and the fixed markup both come out empty
  the whole input is carried as the explanation; and in every case a record is returned
  that is not empty in all four fields.
\<close>

theorem never_all_empty:
  assumes "s \<noteq> []"
  shows "(explanation (parsed_sections s) = [] \<and> fixedHTML (parsed_sections s) = [] \<longrightarrow>
            parseSuggestion (Some s) =
              Some \<lparr> explanation = s, fixedHTML = [], steps = [], wcag = [] \<rparr>)
         \<and> (\<exists>r. parseSuggestion (Some s) = Some r \<and>
               \<not> (explanation r = [] \<and> fixedHTML r = [] \<and> steps r = [] \<and> wcag r = []))"
proof (cases "explanation (parsed_sections s) = [] \<and> fixedHTML (parsed_sections s) = []")
  case True
  with assms have p: "parseSuggestion (Some s) = Some (raw_fallback s)"
    by (simp add: parseSuggestion_def Let_def)
  moreover from assms have "explanation (raw_fallback s) \<noteq> []" by (simp add: raw_fallback_def)
  ultimately have "\<exists>r. parseSuggestion (Some s) = Some r \<and>
      \<not> (explanation r = [] \<and> fixedHTML r = [] \<and> steps r = [] \<and> wcag r = [])"
    by blast
  with p show ?thesis by (simp add: raw_fallback_def)
next
  case False
  with assms have "parseSuggestion (Some s) = Some (parsed_sections s)"
    by (auto simp: parseSuggestion_def Let_def)
  with False show ?thesis by blast
qed

theorem never_all_empty_witness:
  "js ''alt text is missing'' \<noteq> [] \<and>
   (\<exists>r. parseSuggestion (Some (js ''alt text is missing'')) = Some r \<and>
        \<not> (explanation r = [] \<and> fixedHTML r = [] \<and> steps r = [] \<and> wcag r = []))"
proof -
  have ne: "js ''alt text is missing'' \<noteq> []" by (simp add: js_def)
  from never_all_empty [OF ne] ne show ?thesis by blast
qed

section \<open>The two scenarios of the specification\<close>

text \<open>
  C3. The heading-convention scenario parses to the record with explanation
  "Missing alt attribute.", the fixed markup, the two steps in order and the reference
  "1.1.1 Non-text Content".
\<close>

theorem heading_scenario:
  \<open>parseSuggestion (Some (js ''### Concise Technical Explanation\<newline>Missing alt attribute.\<newline>### Fixed HTML Snippet\<newline><img alt="desc">\<newline>### Implementation Steps\<newline>1. Add alt attribute\<newline>2. Verify with screen reader\<newline>### WCAG Reference\<newline>1.1.1 Non-text Content''))
   = Some \<lparr> explanation = js ''Missing alt attribute.'',
            fixedHTML = js ''<img alt="desc">'',
            steps = [js ''Add alt attribute'', js ''Verify with screen reader''],
            wcag = js ''1.1.1 Non-text Content'' \<rparr>\<close>
  by code_simp


section \<open>The steps\<close>

text \<open>
  C6, as the code has it. When the steps section of the input is a block of numbered lines,
  possibly with blank lines among them, and the result is not the fallback record, the
  returned steps are the texts of the numbered lines with the ordinal prefixes stripped, in
  the order of the input, without the texts that are empty and without the texts that
  contain "implementation steps" in any letter case.
\<close>

theorem numbered_steps_in_order:
  assumes "stepsMatch s = Some g"
    and "\<forall>l\<in>set (split_nl g). blank_line l \<or> numbered_line l"
    and "parseSuggestion (Some s) = Some r"
    and "r \<noteq> raw_fallback s"
  shows "steps r =
           filter (\<lambda>t. t \<noteq> [] \<and> \<not> ci_contains (js ''implementation steps'') t)
             (map line_text (filter numbered_line (split_nl g)))"
proof -
  from assms(3,4) have "r = parsed_sections s" by (rule parse_not_fallback)
  with assms(1) have "steps r = steps_of g" by (simp add: steps_parsed_sections)
  also have "\<dots> = filter keep_step (map clean_step (split_nl g))"
    using assms(2) by (rule steps_of_block)
  also have "\<dots> = filter keep_step (map line_text (filter numbered_line (split_nl g)))"
    using assms(2) by (rule steps_numbered_lines)
  finally show ?thesis by (simp add: keep_step_eq)
qed

text \<open>
  The two examples of the specification in one input: three numbered steps, with a blank
  line after the first.
\<close>

theorem numbered_steps_in_order_witness:
  \<open>stepsMatch (js ''### Concise Technical Explanation\<newline>Images lack alt text.\<newline>### Fixed HTML Snippet\<newline><img alt="logo">\<newline>### Implementation Steps\<newline>1. Add alt text\<newline>\<newline>2. Verify contrast\<newline>3. Test with screen reader\<newline>### WCAG Reference\<newline>1.1.1'')
     = Some (js ''\<newline>1. Add alt text\<newline>\<newline>2. Verify contrast\<newline>3. Test with screen reader\<newline>'')
   \<and> parseSuggestion (Some (js ''### Concise Technical Explanation\<newline>Images lack alt text.\<newline>### Fixed HTML Snippet\<newline><img alt="logo">\<newline>### Implementation Steps\<newline>1. Add alt text\<newline>\<newline>2. Verify contrast\<newline>3. Test with screen reader\<newline>### WCAG Reference\<newline>1.1.1''))
     = Some \<lparr> explanation = js ''Images lack alt text.'', fixedHTML = js ''<img alt="logo">'',
              steps = [js ''Add alt text'', js ''Verify contrast'', js ''Test with screen reader''],
              wcag = js ''1.1.1'' \<rparr>
   \<and> [js ''Add alt text'', js ''Verify contrast'', js ''Test with screen reader'']
     = filter (\<lambda>t. t \<noteq> [] \<and> \<not> ci_contains (js ''implementation steps'') t)
         (map line_text (filter numbered_line
           (split_nl (js ''\<newline>1. Add alt text\<newline>\<newline>2. Verify contrast\<newline>3. Test with screen reader\<newline>''))))\<close>
proof -
  let ?s = \<open>js ''### Concise Technical Explanation\<newline>Images lack alt text.\<newline>### Fixed HTML Snippet\<newline><img alt="logo">\<newline>### Implementation Steps\<newline>1. Add alt text\<newline>\<newline>2. Verify contrast\<newline>3. Test with screen reader\<newline>### WCAG Reference\<newline>1.1.1''\<close>
  let ?g = \<open>js ''\<newline>1. Add alt text\<newline>\<newline>2. Verify contrast\<newline>3. Test with screen reader\<newline>''\<close>
  let ?r = \<open>\<lparr> explanation = js ''Images lack alt text.'', fixedHTML = js ''<img alt="logo">'',
              steps = [js ''Add alt text'', js ''Verify contrast'', js ''Test with screen reader''],
              wcag = js ''1.1.1'' \<rparr>\<close>
  have h1: "stepsMatch ?s = Some ?g" by code_simp
  have h2: "\<forall>l\<in>set (split_nl ?g). blank_line l \<or> numbered_line l" by code_simp
  have h3: "parseSuggestion (Some ?s) = Some ?r" by code_simp
  have h4: "?r \<noteq> raw_fallback ?s" by (simp add: raw_fallback_def js_def)
  from numbered_steps_in_order [OF h1 h2 h3 h4] h1 h3 show ?thesis by simp
qed

text \<open>
  C6 as stated fails in two ways. A numbered line whose text mentions "implementation
  steps" is filtered out, so two numbered lines give one step; and a steps section in an
  input without explanation and fixed markup is lost with the fallback.
\<close>

theorem numbered_step_not_returned:
  \<open>parseSuggestion (Some (js ''### Concise Technical Explanation\<newline>Images lack alt text.\<newline>### Fixed HTML Snippet\<newline><img alt="logo">\<newline>### Implementation Steps\<newline>1. Add alt text\<newline>2. Repeat the implementation steps for every image\<newline>### WCAG Reference\<newline>1.1.1''))
     = Some \<lparr> explanation = js ''Images lack alt text.'', fixedHTML = js ''<img alt="logo">'',
              steps = [js ''Add alt text''], wcag = js ''1.1.1'' \<rparr>
   \<and> parseSuggestion (Some (js ''### Implementation Steps\<newline>1. Add alt text\<newline>2. Verify contrast\<newline>### WCAG Reference\<newline>1.1.1''))
     = Some \<lparr> explanation = js ''### Implementation Steps\<newline>1. Add alt text\<newline>2. Verify contrast\<newline>### WCAG Reference\<newline>1.1.1'',
              fixedHTML = [], steps = [], wcag = [] \<rparr>\<close>
  by code_simp

text \<open>
  C7. Let the steps block of the input consist of the lines \<open>ls\<close>. The returned steps are
  then the texts of these lines, in order, without the empty ones and the ones that mention
  "implementation steps" (or no step at all, when the fallback record is returned); and the
  text of every line that begins with a bullet glyph is taken from what follows the glyph and
  the white space after it. In particular the line "- Do X" yields the step "Do X".
\<close>

theorem bullet_prefix_stripped:
  assumes "stepsMatch s = Some (join_nl ls)"
    and "\<forall>l\<in>set ls. 0x0A \<notin> set l"
    and "parseSuggestion (Some s) = Some r"
  shows "steps r =
           (if r = raw_fallback s then []
            else filter (\<lambda>t. t \<noteq> [] \<and> \<not> ci_contains (js ''implementation steps'') t)
                   (map step_text (trimmed_lines ls)))"
proof (cases "r = raw_fallback s")
  case True
  then show ?thesis by (simp add: raw_fallback_def)
next
  case False
  with assms(3) have "r = parsed_sections s" by (rule parse_not_fallback)
  with assms(1) have "steps r = steps_of (join_nl ls)" by (simp add: steps_parsed_sections)
  also have "\<dots> = filter keep_step (map step_text (trimmed_lines ls))"
    using assms(2) by (rule steps_of_join)
  finally show ?thesis using False by (simp add: keep_step_eq)
qed

text \<open>
  A steps block of four lines: an empty one, "- Do X", a bullet line with an ordinal after
  the glyph, and an empty one.
\<close>

theorem bullet_prefix_stripped_witness:
  \<open>parseSuggestion (Some (js ''### Concise Technical Explanation\<newline>Images lack alt text.\<newline>### Fixed HTML Snippet\<newline><img alt="logo">\<newline>### Implementation Steps\<newline>- Do X\<newline>* 2. Do Y\<newline>### WCAG Reference\<newline>1.1.1''))
     = Some \<lparr> explanation = js ''Images lack alt text.'', fixedHTML = js ''<img alt="logo">'',
              steps = [js ''Do X'', js ''Do Y''], wcag = js ''1.1.1'' \<rparr>
   \<and> step_text (js ''- Do X'') = js ''Do X''
   \<and> [js ''Do X'', js ''Do Y'']
     = filter (\<lambda>t. t \<noteq> [] \<and> \<not> ci_contains (js ''implementation steps'') t)
         (map step_text (trimmed_lines [[], js ''- Do X'', js ''* 2. Do Y'', []]))\<close>
proof -
  let ?s = \<open>js ''### Concise Technical Explanation\<newline>Images lack alt text.\<newline>### Fixed HTML Snippet\<newline><img alt="logo">\<newline>### Implementation Steps\<newline>- Do X\<newline>* 2. Do Y\<newline>### WCAG Reference\<newline>1.1.1''\<close>
  let ?ls = "[[], js ''- Do X'', js ''* 2. Do Y'', []]"
  let ?r = \<open>\<lparr> explanation = js ''Images lack alt text.'', fixedHTML = js ''<img alt="logo">'',
              steps = [js ''Do X'', js ''Do Y''], wcag = js ''1.1.1'' \<rparr>\<close>
  have h1: "stepsMatch ?s = Some (join_nl ?ls)" by code_simp
  have h2: "\<forall>l\<in>set ?ls. 0x0A \<notin> set l" by code_simp
  have h3: "parseSuggestion (Some ?s) = Some ?r" by code_simp
  have h4: "?r \<noteq> raw_fallback ?s" by (simp add: raw_fallback_def js_def)
  have t: "step_text (js ''- Do X'') = js ''Do X''" by code_simp
  from bullet_prefix_stripped [OF h1 h2 h3] h4
  have "steps ?r =
      filter (\<lambda>t. t \<noteq> [] \<and> \<not> ci_contains (js ''implementation steps'') t)
        (map step_text (trimmed_lines ?ls))"
    by (simp only: if_False)
  then have "[js ''Do X'', js ''Do Y''] =
      filter (\<lambda>t. t \<noteq> [] \<and> \<not> ci_contains (js ''implementation steps'') t)
        (map step_text (trimmed_lines ?ls))"
    by (simp only: sections.select_convs)
  with h3 t show ?thesis by (intro conjI)
qed

text \<open>
  C8, as the code has it. Of the cleaned lines of the steps block, those that are empty and
  those that contain the phrase "implementation steps" anywhere, in any letter case, are
  discarded; all others are kept, in order, unless the fallback record is returned, which
  has no steps.
\<close>

theorem steps_without_label_mentions:
  assumes "stepsMatch s = Some g"
    and "parseSuggestion (Some s) = Some r"
  shows "steps r =
           (if r = raw_fallback s then []
            else filter (\<lambda>t. t \<noteq> [] \<and> \<not> ci_contains (js ''implementation steps'') t)
                   (map clean_step (split_nl (trim g))))"
proof (cases "r = raw_fallback s")
  case True
  then show ?thesis by (simp add: raw_fallback_def)
next
  case False
  with assms(2) have "r = parsed_sections s" by (rule parse_not_fallback)
  with assms(1) have "steps r = steps_of g" by (simp add: steps_parsed_sections)
  with False show ?thesis by (simp add: steps_of_def keep_step_eq)
qed

theorem steps_without_label_mentions_witness:
  \<open>parseSuggestion (Some (js ''### Concise Technical Explanation\<newline>Images lack alt text.\<newline>### Fixed HTML Snippet\<newline><img alt="logo">\<newline>### Implementation Steps\<newline>IMPLEMENTATION STEPS:\<newline>* Add alt text\<newline>###''))
     = Some \<lparr> explanation = js ''Images lack alt text.'', fixedHTML = js ''<img alt="logo">'',
              steps = [js ''Add alt text''], wcag = [] \<rparr>
   \<and> [js ''Add alt text'']
     = filter (\<lambda>t. t \<noteq> [] \<and> \<not> ci_contains (js ''implementation steps'') t)
         (map clean_step (split_nl (trim (js ''\<newline>IMPLEMENTATION STEPS:\<newline>* Add alt text\<newline>''))))\<close>
proof -
  let ?s = \<open>js ''### Concise Technical Explanation\<newline>Images lack alt text.\<newline>### Fixed HTML Snippet\<newline><img alt="logo">\<newline>### Implementation Steps\<newline>IMPLEMENTATION STEPS:\<newline>* Add alt text\<newline>###''\<close>
  let ?g = \<open>js ''\<newline>IMPLEMENTATION STEPS:\<newline>* Add alt text\<newline>''\<close>
  let ?r = \<open>\<lparr> explanation = js ''Images lack alt text.'', fixedHTML = js ''<img alt="logo">'',
              steps = [js ''Add alt text''], wcag = [] \<rparr>\<close>
  have h1: "stepsMatch ?s = Some ?g" by code_simp
  have h2: "parseSuggestion (Some ?s) = Some ?r" by code_simp
  have h3: "?r \<noteq> raw_fallback ?s" by (simp add: raw_fallback_def js_def)
  from steps_without_label_mentions [OF h1 h2] h3
  have "steps ?r =
      filter (\<lambda>t. t \<noteq> [] \<and> \<not> ci_contains (js ''implementation steps'') t)
        (map clean_step (split_nl (trim ?g)))"
    by (simp only: if_False)
  then have "[js ''Add alt text''] =
      filter (\<lambda>t. t \<noteq> [] \<and> \<not> ci_contains (js ''implementation steps'') t)
        (map clean_step (split_nl (trim ?g)))"
    by (simp only: sections.select_convs)
  with h2 show ?thesis by (intro conjI)
qed

text \<open>
  C8 as stated fails in two ways. A line that is more than a restatement of the label, and
  mentions the phrase among other words, is discarded all the same; and a line that does
  not mention the label at all is not kept when the input has no explanation and no fixed
  markup, because the fallback record is returned.
\<close>

theorem line_mentioning_label_dropped:
  \<open>clean_step (js ''1. Review the implementation steps document'')
     = js ''Review the implementation steps document''
   \<and> parseSuggestion (Some (js ''### Concise Technical Explanation\<newline>Images lack alt text.\<newline>### Fixed HTML Snippet\<newline><img alt="logo">\<newline>### Implementation Steps\<newline>1. Review the implementation steps document\<newline>2. Add alt text\<newline>### WCAG Reference\<newline>1.1.1''))
     = Some \<lparr> explanation = js ''Images lack alt text.'', fixedHTML = js ''<img alt="logo">'',
              steps = [js ''Add alt text''], wcag = js ''1.1.1'' \<rparr>
   \<and> stepsMatch (js ''### Implementation Steps\<newline>- Add alt text\<newline>###'')
     = Some (js ''\<newline>- Add alt text\<newline>'')
   \<and> parseSuggestion (Some (js ''### Implementation Steps\<newline>- Add alt text\<newline>###''))
     = Some \<lparr> explanation = js ''### Implementation Steps\<newline>- Add alt text\<newline>###'',
              fixedHTML = [], steps = [], wcag = [] \<rparr>\<close>
  by code_simp

section \<open>The two implementations\<close>

text \<open>
  C10. Let the input be a non-empty string of the heading convention only: none of the
  numbered labels "1. Explanation of this", "2. Fixed HTML code" and "3. Implementation
  steps" occurs in it, and "WCAG reference" occurs in it only if the heading
  "### WCAG Reference" does. Let no line of its steps block, as the code splits it, begin
  with a bullet glyph or contain "implementation steps" in any letter case. Then the
  function of ResultsView.js and the exported function return the same record.
\<close>

theorem implementations_agree_on_heading_inputs:
  assumes "s \<noteq> []"
    and "\<not> ci_contains (js ''1. Explanation of this '') s"
    and "\<not> ci_contains (js ''2. Fixed HTML code'') s"
    and "\<not> ci_contains (js ''3. Implementation steps'') s"
    and "ci_contains (js ''### WCAG Reference'') s \<or> \<not> ci_contains (js ''WCAG reference'') s"
    and "\<forall>g. js_match rx_steps_heading s = Some g \<longrightarrow>
           (\<forall>l\<in>set (split_nl (trim g)).
              \<not> starts_with_bullet l \<and> \<not> ci_contains (js ''implementation steps'') l)"
  shows "\<exists>r. parseSuggestion (Some s) = Some r \<and> parseSuggestion_exported (Some s) = Inr r"
proof -
  have "js_match rx_explanation_numbered s = None"
    unfolding rx_explanation_numbered_def using assms(2) by (rule js_match_lit_None)
  then have e: "explanationMatch s = js_match rx_explanation_heading s"
    by (simp add: explanationMatch_def split: option.splits)
  have "js_match rx_fixedHTML_numbered s = None"
    unfolding rx_fixedHTML_numbered_def using assms(3) by (rule js_match_lit_None)
  then have f: "fixedHTMLMatch s = js_match rx_fixedHTML_heading s"
    by (simp add: fixedHTMLMatch_def split: option.splits)
  have "js_match rx_steps_numbered s = None"
    unfolding rx_steps_numbered_def using assms(4) by (rule js_match_lit_None)
  then have st: "stepsMatch s = js_match rx_steps_heading s"
    by (simp add: stepsMatch_def split: option.splits)
  have w: "wcagMatch s = js_match rx_wcag_heading s"
  proof (cases "ci_contains (js ''### WCAG Reference'') s")
    case True
    then have "\<exists>x. js_match rx_wcag_heading s = Some x"
      unfolding rx_wcag_heading_def by (rule js_match_lit_greedy)
    then obtain x where "js_match rx_wcag_heading s = Some x" by (rule exE)
    then show ?thesis by (simp add: wcagMatch_def)
  next
    case False
    with assms(5) have "\<not> ci_contains (js ''WCAG reference'') s" by simp
    then have "js_match rx_wcag_label s = None"
      unfolding rx_wcag_label_def by (rule js_match_lit_None)
    then show ?thesis by (simp add: wcagMatch_def split: option.splits)
  qed
  have sp: "steps (parsed_sections s) = steps (parsed_sections_exported s)"
  proof (cases "js_match rx_steps_heading s")
    case None
    with st show ?thesis by (simp add: parsed_sections_def parsed_sections_exported_def)
  next
    case (Some g)
    with assms(6) have "\<forall>l\<in>set (split_nl (trim g)).
        \<not> starts_with_bullet l \<and> \<not> ci_contains (js ''implementation steps'') l"
      by simp
    then have "steps_of g = steps_of_exported g"
      unfolding steps_of_def steps_of_exported_def Let_def by (rule steps_agree)
    with Some st show ?thesis by (simp add: parsed_sections_def parsed_sections_exported_def)
  qed
  have "parsed_sections s = parsed_sections_exported s"
    using sp e f w by (simp add: parsed_sections_def parsed_sections_exported_def)
  with assms(1) show ?thesis
    by (simp add: parseSuggestion_def parseSuggestion_exported_def Let_def)
qed

theorem implementations_agree_on_heading_inputs_witness:
  \<open>parseSuggestion (Some (js ''### Concise Technical Explanation\<newline>No alt.\<newline>### Fixed HTML Snippet\<newline><img alt="x">\<newline>### Implementation Steps\<newline>1. Add alt\<newline>### WCAG Reference\<newline>1.1.1''))
     = Some \<lparr> explanation = js ''No alt.'', fixedHTML = js ''<img alt="x">'',
              steps = [js ''Add alt''], wcag = js ''1.1.1'' \<rparr>
   \<and> parseSuggestion_exported (Some (js ''### Concise Technical Explanation\<newline>No alt.\<newline>### Fixed HTML Snippet\<newline><img alt="x">\<newline>### Implementation Steps\<newline>1. Add alt\<newline>### WCAG Reference\<newline>1.1.1''))
     = Inr \<lparr> explanation = js ''No alt.'', fixedHTML = js ''<img alt="x">'',
             steps = [js ''Add alt''], wcag = js ''1.1.1'' \<rparr>\<close>
proof -
  let ?s = \<open>js ''### Concise Technical Explanation\<newline>No alt.\<newline>### Fixed HTML Snippet\<newline><img alt="x">\<newline>### Implementation Steps\<newline>1. Add alt\<newline>### WCAG Reference\<newline>1.1.1''\<close>
  let ?r = \<open>\<lparr> explanation = js ''No alt.'', fixedHTML = js ''<img alt="x">'',
              steps = [js ''Add alt''], wcag = js ''1.1.1'' \<rparr>\<close>
  have h1: "?s \<noteq> []" by (simp add: js_def)
  have h2: "\<not> ci_contains (js ''1. Explanation of this '') ?s" by code_simp
  have h3: "\<not> ci_contains (js ''2. Fixed HTML code'') ?s" by code_simp
  have h4: "\<not> ci_contains (js ''3. Implementation steps'') ?s" by code_simp
  have "ci_contains (js ''### WCAG Reference'') ?s" by code_simp
  then have h5: "ci_contains (js ''### WCAG Reference'') ?s \<or> \<not> ci_contains (js ''WCAG reference'') ?s"
    by (rule disjI1)
  have m: "js_match rx_steps_heading ?s = Some (js ''\<newline>1. Add alt\<newline>'')" by code_simp
  have l: "\<forall>l\<in>set (split_nl (trim (js ''\<newline>1. Add alt\<newline>''))).
      \<not> starts_with_bullet l \<and> \<not> ci_contains (js ''implementation steps'') l"
    by code_simp
  have h6: "\<forall>g. js_match rx_steps_heading ?s = Some g \<longrightarrow>
           (\<forall>l\<in>set (split_nl (trim g)).
              \<not> starts_with_bullet l \<and> \<not> ci_contains (js ''implementation steps'') l)"
    using l by (simp only: m option.inject) blast
  have p: "parseSuggestion (Some ?s) = Some ?r" by code_simp
  from implementations_agree_on_heading_inputs [OF h1 h2 h3 h4 h5 h6] p
  show ?thesis by auto
qed

section \<open>Where the exported function differs\<close>

text \<open>
  The exported function has no guard, strips no bullet and keeps the lines that mention
  the label: outside the inputs of C10 the two functions part.
\<close>

lemma exported_throws_on_null: "parseSuggestion_exported None = Inl TypeError"
  by (simp add: parseSuggestion_exported_def)

lemma exported_keeps_bullet: "clean_step_exported (js ''- Do X'') = js ''- Do X''"
  by code_simp

lemma exported_keeps_label_line:
  "steps_of_exported (js ''Implementation steps\<newline>1. Add alt text'')
     = [js ''Implementation steps'', js ''Add alt text'']"
  by code_simp

end
